theory Spec2Isabelle
  imports Main "HOL-Library.Char_ord" "HOL-Library.List_Lexorder"
begin

section \<open>The tell/ask module of the bot: reminder store, enqueue handler, delivery matcher\<close>

text \<open>
  The development follows \<^verbatim>\<open>sopel/modules/tell.py\<close>. Python text is modelled as
  \<^typ>\<open>string\<close>; the characters below 128 are the ASCII characters, the others are
  opaque (never whitespace, without case). The clock (\<^verbatim>\<open>time.strftime\<close>,
  \<^verbatim>\<open>format_time\<close>) is a parameter of the functions that read it. The lock
  \<^verbatim>\<open>bot.memory['tell_lock']\<close> serialises the handlers, so each handler is a function
  from the state before it to the state after it.
\<close>

subsection \<open>Python string methods\<close>

definition TAB :: char where
  "TAB = CHR 0x09"

definition LF :: char where
  "LF = CHR 0x0A"

definition CR :: char where
  "CR = CHR 0x0D"

text \<open>\<^verbatim>\<open>str.isspace\<close> on one ASCII character: codes 9 to 13, 28 to 31 and 32.\<close>

definition isspace :: "char \<Rightarrow> bool" where
  "isspace c = (let n = (of_char c :: nat) in (9 \<le> n \<and> n \<le> 13) \<or> (28 \<le> n \<and> n \<le> 32))"

text \<open>\<^verbatim>\<open>str.lower\<close>: the letters A to Z move to a to z.\<close>

definition lower_chr :: "char \<Rightarrow> char" where
  "lower_chr c =
     (case map_of (zip ''ABCDEFGHIJKLMNOPQRSTUVWXYZ'' ''abcdefghijklmnopqrstuvwxyz'') c of
        Some d \<Rightarrow> d
      | None \<Rightarrow> c)"

definition lower :: "string \<Rightarrow> string" where
  "lower s = map lower_chr s"

text \<open>\<^verbatim>\<open>s.rstrip(chars)\<close> and \<^verbatim>\<open>s.lstrip(chars)\<close> remove the characters of the set
  \<open>chars\<close> from one end; \<^verbatim>\<open>s.strip()\<close> and \<^verbatim>\<open>s.lstrip()\<close> remove whitespace.\<close>

definition rstrip :: "string \<Rightarrow> string \<Rightarrow> string" where
  "rstrip chars s = rev (dropWhile (\<lambda>c. c \<in> set chars) (rev s))"

definition lstrip :: "string \<Rightarrow> string \<Rightarrow> string" where
  "lstrip chars s = dropWhile (\<lambda>c. c \<in> set chars) s"

definition lstrip_ws :: "string \<Rightarrow> string" where
  "lstrip_ws s = dropWhile isspace s"

definition strip :: "string \<Rightarrow> string" where
  "strip s = rev (dropWhile isspace (rev (dropWhile isspace s)))"

definition endswith :: "string \<Rightarrow> string \<Rightarrow> bool" where
  "endswith s e = (length e \<le> length s \<and> drop (length s - length e) s = e)"

definition startswith :: "string \<Rightarrow> string \<Rightarrow> bool" where
  "startswith s p = (take (length p) s = p)"

text \<open>\<^verbatim>\<open>s.split(sep, n)\<close>: at most \<open>n\<close> cuts, at the first occurrences of \<open>sep\<close>.\<close>

fun split_max :: "char \<Rightarrow> nat \<Rightarrow> string \<Rightarrow> string list" where
  "split_max sep 0 s = [s]"
| "split_max sep (Suc n) s =
     (if sep \<in> set s
      then takeWhile (\<lambda>c. c \<noteq> sep) s # split_max sep n (tl (dropWhile (\<lambda>c. c \<noteq> sep) s))
      else [s])"

text \<open>\<^verbatim>\<open>sep.join(fields)\<close> for the one-character separator.\<close>

fun join :: "char \<Rightarrow> string list \<Rightarrow> string" where
  "join sep [] = []"
| "join sep [x] = x"
| "join sep (x # y # ys) = x @ sep # join sep (y # ys)"

subsection \<open>Matching a stored key against the speaker\<close>

text \<open>The test of the loop of \<^verbatim>\<open>message\<close> that decides whether \<^verbatim>\<open>getReminders\<close> is
  called for \<open>remkey\<close>.\<close>

definition matches :: "string \<Rightarrow> string \<Rightarrow> bool" where
  "matches tellee remkey =
     (if \<not> endswith remkey ''*'' \<or> endswith remkey '':''
      then lower tellee = lower remkey
      else startswith (lower tellee) (rstrip ''*:'' (lower remkey)))"

subsection \<open>The reminder index\<close>

text \<open>A reminder is the tuple \<^verbatim>\<open>(teller, verb, timenow, msg)\<close>. The index
  \<^verbatim>\<open>bot.memory['reminders']\<close> is a dictionary from keys to lists of reminders; it is
  kept as an association list in insertion order, which is the order \<^verbatim>\<open>data.items()\<close>
  iterates in.\<close>

type_synonym reminder = "string \<times> string \<times> string \<times> string"

type_synonym index = "(string \<times> reminder list) list"

datatype py_error = KeyError

text \<open>\<^verbatim>\<open>d[key]\<close> on the \<^verbatim>\<open>defaultdict(list)\<close> that \<^verbatim>\<open>load_reminders\<close> returns: a
  missing key is created with the empty list.\<close>

definition dd_getitem :: "string \<Rightarrow> index \<Rightarrow> reminder list \<times> index" where
  "dd_getitem key d =
     (case map_of d key of Some rs \<Rightarrow> (rs, d) | None \<Rightarrow> ([], d @ [(key, [])]))"

text \<open>\<^verbatim>\<open>d[key].append(r)\<close>.\<close>

definition append_under :: "string \<Rightarrow> reminder \<Rightarrow> index \<Rightarrow> index" where
  "append_under key r d =
     (let (rs, d') = dd_getitem key d
      in map (\<lambda>(k, xs). if k = key then (k, xs @ [r]) else (k, xs)) d')"

text \<open>\<^verbatim>\<open>del d[key]\<close> raises \<^verbatim>\<open>KeyError\<close> on a missing key.\<close>

definition dict_del :: "string \<Rightarrow> index \<Rightarrow> py_error + index" where
  "dict_del key d =
     (if key \<in> set (map fst d) then Inr (filter (\<lambda>(k, xs). k \<noteq> key) d) else Inl KeyError)"

subsection \<open>Reminder store: \<^verbatim>\<open>load_reminders\<close> and \<^verbatim>\<open>dump_reminders\<close>\<close>

text \<open>A file is its content. Reading in text mode translates \<^verbatim>\<open>\r\n\<close> and \<^verbatim>\<open>\r\<close> to
  \<^verbatim>\<open>\n\<close>; the flag says that the previous character was a \<^verbatim>\<open>\r\<close>. Iterating over the
  file yields the lines with their terminator.\<close>

fun universal_newlines :: "bool \<Rightarrow> string \<Rightarrow> string" where
  "universal_newlines after_cr [] = []"
| "universal_newlines after_cr (c # cs) =
     (if c = CR then LF # universal_newlines True cs
      else if c = LF \<and> after_cr then universal_newlines False cs
      else c # universal_newlines False cs)"

fun readlines :: "string \<Rightarrow> string \<Rightarrow> string list" where
  "readlines cur [] = (if cur = [] then [] else [cur])"
| "readlines cur (c # cs) =
     (if c = LF then (cur @ [c]) # readlines [] cs else readlines (cur @ [c]) cs)"

text \<open>The body of the loop of \<^verbatim>\<open>load_reminders\<close> on one line: \<open>None\<close> when the line is
  skipped (empty after \<^verbatim>\<open>strip\<close>, or the unpacking of the split raises \<^verbatim>\<open>ValueError\<close>).\<close>

definition parse_line :: "string \<Rightarrow> (string \<times> reminder) option" where
  "parse_line line0 =
     (let line = strip line0
      in if line = [] then None
         else case split_max TAB 4 line of
                [tellee, teller, verb, timenow, msg] \<Rightarrow> Some (tellee, (teller, verb, timenow, msg))
              | _ \<Rightarrow> None)"

fun load_lines :: "index \<Rightarrow> string list \<Rightarrow> index" where
  "load_lines result [] = result"
| "load_lines result (line # rest) =
     load_lines (case parse_line line of
                   None \<Rightarrow> result
                 | Some (tellee, r) \<Rightarrow> append_under tellee r result) rest"

definition load_reminders :: "string \<Rightarrow> index" where
  "load_reminders content = load_lines [] (readlines [] (universal_newlines False content))"

definition dump_lines :: "index \<Rightarrow> string list" where
  "dump_lines data =
     concat (map (\<lambda>(tellee, reminders).
                    map (\<lambda>(teller, verb, timenow, msg). join TAB [tellee, teller, verb, timenow, msg])
                      reminders) data)"

definition dump_reminders :: "index \<Rightarrow> string" where
  "dump_reminders data = concat (map (\<lambda>line. line @ [LF]) (dump_lines data))"

subsection \<open>The bot and what it sends\<close>

text \<open>\<open>Say recipient text\<close> is \<^verbatim>\<open>bot.say(text, recipient)\<close> and \<open>Reply text\<close> is
  \<^verbatim>\<open>bot.reply(text)\<close>. \<open>tell_file\<close> is the content of the file \<^verbatim>\<open>bot.tell_filename\<close>,
  \<open>None\<close> when \<^verbatim>\<open>os.path.exists\<close> is false, and \<open>writes\<close> counts how often the file was
  opened for writing.\<close>

datatype action = Say string string | Reply string

record bot =
  bot_nick :: string
  reminders :: index
  tell_file :: "string option"
  writes :: nat
  sent :: "action list"

record trigger =
  nick :: string
  sender :: string
  group1 :: string
  group2 :: string
  group3 :: "string option"

definition say :: "string \<Rightarrow> string \<Rightarrow> bot \<Rightarrow> bot" where
  "say recipient text b = b\<lparr>sent := sent b @ [Say recipient text]\<rparr>"

definition reply :: "string \<Rightarrow> bot \<Rightarrow> bot" where
  "reply text b = b\<lparr>sent := sent b @ [Reply text]\<rparr>"

definition save :: "bot \<Rightarrow> bot" where
  "save b = b\<lparr>tell_file := Some (dump_reminders (reminders b)), writes := Suc (writes b)\<rparr>"

text \<open>Modelled from the spec: the class \<^verbatim>\<open>sopel.tools.Identifier\<close> is not among the
  sources; the spec describes it as nickname equality by case-insensitive compare. A
  dictionary lookup with an \<^verbatim>\<open>Identifier\<close> finds the stored key equal to it in that sense.\<close>

definition ident_eq :: "string \<Rightarrow> string \<Rightarrow> bool" where
  "ident_eq a b = (lower a = lower b)"

definition find_key :: "string \<Rightarrow> index \<Rightarrow> string option" where
  "find_key ident d = find (\<lambda>k. ident_eq k ident) (map fst d)"

subsection \<open>Enqueue handler: \<^verbatim>\<open>f_remind\<close>\<close>

text \<open>\<open>timenow\<close> is what \<^verbatim>\<open>format_time\<close> returns for the recipient. \<^verbatim>\<open>trigger.group(3)\<close>
  is \<open>None\<close> or a string; \<^verbatim>\<open>trigger.group(2)\<close> is a string whenever group 3 is there.\<close>

definition f_remind :: "string \<Rightarrow> trigger \<Rightarrow> bot \<Rightarrow> bot" where
  "f_remind timenow trig b =
     (let teller = nick trig; verb = group1 trig
      in case group3 trig of
           None \<Rightarrow> reply (verb @ '' whom?'') b
         | Some g3 \<Rightarrow>
             if g3 = [] then reply (verb @ '' whom?'') b
             else
               let tellee = rstrip ''.,:;'' g3;
                   msg = lstrip_ws (lstrip tellee (group2 trig))
               in if msg = [] then reply (verb @ '' '' @ tellee @ '' what?'') b
                  else if tell_file b = None then b
                  else if length tellee > 30 then reply ''That nickname is too long.'' b
                  else if ident_eq tellee (bot_nick b)
                    then reply ''I'm here now; you can tell me whatever you want!'' b
                  else if \<not> (ident_eq tellee teller \<or> ident_eq tellee (bot_nick b)
                               \<or> ident_eq tellee ''me'')
                    then
                      let d = (case find_key tellee (reminders b) of
                                 None \<Rightarrow> reminders b @ [(tellee, [(teller, verb, timenow, msg)])]
                               | Some k \<Rightarrow> append_under k (teller, verb, timenow, msg) (reminders b))
                      in reply (''I'll pass that on when '' @ tellee @ '' is around.'')
                           (save (b\<lparr>reminders := d\<rparr>))
                  else if ident_eq teller tellee
                    then say (sender trig) (''You can '' @ verb @ '' yourself that.'') b
                  else say (sender trig) ''Hey, I'm not as stupid as Monty you know!'' b)"

subsection \<open>Delivery matcher: \<^verbatim>\<open>getReminders\<close> and \<^verbatim>\<open>message\<close>\<close>

definition MAXIMUM :: nat where
  "MAXIMUM = 4"

text \<open>The filler reply, \<^verbatim>\<open>Er\<close> and the ellipsis U+2026 in UTF-8.\<close>

definition filler :: string where
  "filler = ''Er'' @ [CHR 0xE2, CHR 0x80, CHR 0xA6]"

text \<open>One line of the delivery; \<open>today\<close> is \<^verbatim>\<open>time.strftime('%d %b', time.gmtime())\<close>.\<close>

definition format_reminder :: "string \<Rightarrow> string \<Rightarrow> reminder \<Rightarrow> string" where
  "format_reminder today tellee r =
     (case r of (teller, verb, datetime, msg) \<Rightarrow>
        let datetime' = (if startswith datetime today
                         then drop (length today + 1) datetime else datetime)
        in tellee @ '': '' @ datetime' @ '' <'' @ teller @ ''> '' @ verb @ '' '' @ tellee
             @ '' '' @ msg)"

text \<open>The inner \<^verbatim>\<open>try\<close> of \<^verbatim>\<open>getReminders\<close>: the deletion, with its handler.\<close>

definition delete_key :: "string \<Rightarrow> string \<Rightarrow> bot \<Rightarrow> bot" where
  "delete_key channel key b =
     (case dict_del key (reminders b) of
        Inr d \<Rightarrow> b\<lparr>reminders := d\<rparr>
      | Inl KeyError \<Rightarrow> say channel filler b)"

definition getReminders :: "string \<Rightarrow> string \<Rightarrow> string \<Rightarrow> string \<Rightarrow> bot \<Rightarrow> string list \<times> bot" where
  "getReminders today channel key tellee b =
     (let (rs, d) = dd_getitem key (reminders b);
          lines = map (format_reminder today tellee) rs
      in (lines, delete_key channel key (b\<lparr>reminders := d\<rparr>)))"

text \<open>The loop over \<^verbatim>\<open>remkeys\<close>; \<open>acc\<close> is the list \<^verbatim>\<open>reminders\<close> of the source.\<close>

fun match_loop ::
  "string \<Rightarrow> string \<Rightarrow> string \<Rightarrow> string list \<Rightarrow> string list \<Rightarrow> bot \<Rightarrow> string list \<times> bot" where
  "match_loop today channel tellee [] acc b = (acc, b)"
| "match_loop today channel tellee (remkey # rest) acc b =
     (if matches tellee remkey
      then let (lines, b') = getReminders today channel remkey tellee b
           in match_loop today channel tellee rest (acc @ lines) b'
      else match_loop today channel tellee rest acc b)"

text \<open>Modelled from the spec: the bot object is not among the sources; the spec has
  \<^verbatim>\<open>bot.say(line)\<close>, without a recipient, say the line in the channel where the trigger
  occurred. The rest is the end of \<^verbatim>\<open>message\<close> before the file is saved.\<close>

definition deliver :: "string \<Rightarrow> string \<Rightarrow> string list \<Rightarrow> bot \<Rightarrow> bot" where
  "deliver channel tellee lines b =
     (let b1 = fold (say channel) (take MAXIMUM lines) b
      in if drop MAXIMUM lines \<noteq> []
         then fold (say tellee) (drop MAXIMUM lines)
                (say channel ''Further messages sent privately'' b1)
         else b1)"

text \<open>The last test of \<^verbatim>\<open>message\<close> compares \<^verbatim>\<open>len(...keys())\<close>, an integer, with
  \<^verbatim>\<open>remkeys\<close>, a list. Python's \<^verbatim>\<open>!=\<close> between an integer and a list is true.\<close>

datatype pyval = PyInt nat | PyList "string list"

fun py_ne :: "pyval \<Rightarrow> pyval \<Rightarrow> bool" where
  "py_ne (PyInt m) (PyInt n) = (m \<noteq> n)"
| "py_ne (PyList xs) (PyList ys) = (xs \<noteq> ys)"
| "py_ne (PyInt m) (PyList ys) = True"
| "py_ne (PyList xs) (PyInt n) = True"

definition message :: "string \<Rightarrow> trigger \<Rightarrow> bot \<Rightarrow> bot" where
  "message today trig b =
     (let tellee = nick trig; channel = sender trig
      in if tell_file b = None then b
         else
           let remkeys = rev (sort (map fst (reminders b)));
               (lines, b1) = match_loop today channel tellee remkeys [] b;
               b2 = deliver channel tellee lines b1
           in if py_ne (PyInt (length (map fst (reminders b2)))) (PyList remkeys)
              then save b2 else b2)"

subsection \<open>Reading the index, and the states of the examples\<close>

text \<open>The reminders stored under a key, none when the key is not stored.\<close>

definition stored :: "index \<Rightarrow> string \<Rightarrow> reminder list" where
  "stored d key = (case map_of d key of None \<Rightarrow> [] | Some rs \<Rightarrow> rs)"

text \<open>A bot whose file holds the dump of its index, and the chat line of a speaker.\<close>

definition sample_bot :: "index \<Rightarrow> bot" where
  "sample_bot d =
     \<lparr>bot_nick = ''Sopel'', reminders = d, tell_file = Some (dump_reminders d), writes = 0,
      sent = []\<rparr>"

definition speaks :: "string \<Rightarrow> trigger" where
  "speaks who = \<lparr>nick = who, sender = ''#chan'', group1 = ''hi'', group2 = [], group3 = None\<rparr>"

definition five_for_bob :: index where
  "five_for_bob =
     [(''bob'', [(''alice'', ''tell'', ''04 Nov 12:01'', ''one''),
                 (''alice'', ''ask'', ''04 Nov 12:02'', ''two''),
                 (''carol'', ''tell'', ''03 Nov 12:03'', ''three''),
                 (''alice'', ''tell'', ''04 Nov 12:04'', ''four''),
                 (''alice'', ''tell'', ''04 Nov 12:05'', ''five'')])]"

text \<open>A file with one reminder and one malformed line, and the bot that has loaded it.\<close>

definition junk_file :: string where
  "junk_file = dump_reminders [(''bob'', [(''alice'', ''tell'', ''04 Nov 12:01'', ''one'')])]
                 @ ''junk'' @ [LF]"

definition junk_bot :: bot where
  "junk_bot =
     \<lparr>bot_nick = ''Sopel'', reminders = load_reminders junk_file, tell_file = Some junk_file,
      writes = 0, sent = []\<rparr>"

text \<open>A tell/ask command: who asks, the verb, the text after the verb and its first word.\<close>

definition command :: "string \<Rightarrow> string \<Rightarrow> string \<Rightarrow> string \<Rightarrow> trigger" where
  "command who verb args first =
     \<lparr>nick = who, sender = ''#chan'', group1 = verb, group2 = args, group3 = Some first\<rparr>"

subsection \<open>Reading the store\<close>

text \<open>The lines of a file that \<^verbatim>\<open>load_reminders\<close> does not skip, parsed, in file order; and
  the reminders among such entries that carry a given key.\<close>

definition parsed :: "string \<Rightarrow> (string \<times> reminder) list" where
  "parsed content = List.map_filter parse_line (readlines [] (universal_newlines False content))"

definition reminders_for :: "string \<Rightarrow> (string \<times> reminder) list \<Rightarrow> reminder list" where
  "reminders_for key entries = map snd (filter (\<lambda>e. fst e = key) entries)"

text \<open>An entry that \<^verbatim>\<open>dump_reminders\<close> writes as one line and \<^verbatim>\<open>load_reminders\<close> reads back
  as it was: no tab in the first four fields, no line break in the line, and the line
  neither empty nor starting or ending with whitespace. An index is well formed when its
  keys are distinct, no list is empty and every entry is of that kind.\<close>

definition clean_entry :: "string \<times> reminder \<Rightarrow> bool" where
  "clean_entry e =
     (case e of (tellee, teller, verb, timenow, msg) \<Rightarrow>
        let line = join TAB [tellee, teller, verb, timenow, msg]
        in TAB \<notin> set tellee \<and> TAB \<notin> set teller \<and> TAB \<notin> set verb \<and> TAB \<notin> set timenow
           \<and> LF \<notin> set line \<and> CR \<notin> set line
           \<and> line \<noteq> [] \<and> \<not> isspace (hd line) \<and> \<not> isspace (last line))"

definition well_formed :: "index \<Rightarrow> bool" where
  "well_formed d =
     (distinct (map fst d)
      \<and> list_all (\<lambda>(key, rs). rs \<noteq> [] \<and> list_all (\<lambda>r. clean_entry (key, r)) rs) d)"

text \<open>A line with four tabs and an empty last field.\<close>

definition short_line :: string where
  "short_line = ''bob'' @ [TAB] @ ''alice'' @ [TAB] @ ''tell'' @ [TAB] @ ''12:00'' @ [TAB]"

text \<open>A line as the iteration over a file yields it: no \<^verbatim>\<open>\r\<close>, and no \<^verbatim>\<open>\n\<close> but at
  the end. And the line that \<^verbatim>\<open>dump_reminders\<close> writes for one reminder.\<close>

definition line_shape :: "string \<Rightarrow> bool" where
  "line_shape l = (CR \<notin> set l \<and> LF \<notin> set (butlast l))"

definition entry_line :: "string \<Rightarrow> reminder \<Rightarrow> string" where
  "entry_line k r =
     (case r of (teller, verb, timenow, msg) \<Rightarrow> join TAB [k, teller, verb, timenow, msg] @ [LF])"

section \<open>Properties\<close>

subsection \<open>Wildcard keys\<close>

lemma lower_chr_star_colon: "lower_chr c \<in> set ''*:'' \<longleftrightarrow> c \<in> set ''*:''"
  by (auto simp: lower_chr_def split: if_splits)

lemma lower_rstrip: "lower (rstrip ''*:'' k) = rstrip ''*:'' (lower k)"
proof -
  have "(\<lambda>c. c \<in> set ''*:'') \<circ> lower_chr = (\<lambda>c. c \<in> set ''*:'')"
    using lower_chr_star_colon by (auto simp: fun_eq_iff)
  then show ?thesis
    by (simp add: lower_def rstrip_def rev_map dropWhile_map)
qed

lemma endswith_last: "endswith s [c] \<longleftrightarrow> s \<noteq> [] \<and> last s = c"
proof (cases s rule: rev_cases)
  case Nil
  then show ?thesis by (simp add: endswith_def)
next
  case (snoc xs x)
  then show ?thesis by (auto simp: endswith_def)
qed

lemma endswith_star_colon: "endswith s ''*:'' \<Longrightarrow> endswith s '':''"
  by (cases s rule: rev_cases) (auto simp: endswith_def Suc_diff_le)

text \<open>
  C1, as the code has it. A key ending in \<^verbatim>\<open>*\<close> matches exactly the speakers whose
  lower-cased nickname starts with the lower-cased key stripped of its trailing \<^verbatim>\<open>*\<close> and
  \<^verbatim>\<open>:\<close> characters. A key ending in \<^verbatim>\<open>*:\<close> takes the exact branch, where nothing is
  stripped: it matches exactly the speakers whose lower-cased nickname is the whole
  lower-cased key, suffix included.
\<close>

theorem matches_wildcard_keys:
  "(endswith remkey ''*'' \<longrightarrow>
      (matches tellee remkey \<longleftrightarrow> startswith (lower tellee) (lower (rstrip ''*:'' remkey))))
   \<and> (endswith remkey ''*:'' \<longrightarrow> (matches tellee remkey \<longleftrightarrow> lower tellee = lower remkey))"
proof (intro conjI impI)
  assume star: "endswith remkey ''*''"
  then have "\<not> endswith remkey '':''"
    by (auto simp: endswith_last)
  with star show "matches tellee remkey \<longleftrightarrow> startswith (lower tellee) (lower (rstrip ''*:'' remkey))"
    by (simp add: matches_def lower_rstrip)
next
  assume "endswith remkey ''*:''"
  then show "matches tellee remkey \<longleftrightarrow> lower tellee = lower remkey"
    by (simp add: matches_def endswith_star_colon)
qed

theorem matches_wildcard_keys_witness:
  "endswith ''Bob*'' ''*'' \<and> matches ''bobby'' ''Bob*'' \<and> \<not> matches ''bo'' ''Bob*''
   \<and> endswith ''Bob*:'' ''*:'' \<and> matches ''bob*:'' ''Bob*:'' \<and> \<not> matches ''bob'' ''Bob*:''"
  using matches_wildcard_keys [of "''Bob*''" "''bobby''"] matches_wildcard_keys [of "''Bob*''" "''bo''"]
    matches_wildcard_keys [of "''Bob*:''" "''bob*:''"] matches_wildcard_keys [of "''Bob*:''" "''bob''"]
  by (simp add: endswith_def startswith_def rstrip_def lower_def lower_chr_def)

text \<open>
  C1 as the spec words it fails for the key \<^verbatim>\<open>bob*:\<close> and the speaker \<^verbatim>\<open>bob\<close>: the
  nickname equals the key without its \<^verbatim>\<open>*:\<close> suffix, and the key does not match.
\<close>

theorem star_colon_key_counterexample:
  "endswith ''bob*:'' ''*:''
   \<and> lower ''bob'' = lower (take (length ''bob*:'' - length ''*:'') ''bob*:'')
   \<and> \<not> matches ''bob'' ''bob*:''"
  by (simp add: matches_def endswith_def lower_def lower_chr_def)

subsection \<open>Delivery of one key\<close>

lemma fold_say: "fold (say d) xs b = b\<lparr>sent := sent b @ map (Say d) xs\<rparr>"
  by (induction xs arbitrary: b) (simp_all add: say_def)

lemma map_of_filter_key: "map_of (filter (\<lambda>(k, xs). k \<noteq> key) d) key = None"
  by (induction d) auto

lemma map_of_filter_other:
  "k \<noteq> key \<Longrightarrow> map_of (filter (\<lambda>(k, xs). k \<noteq> key) d) k = map_of d k"
  by (induction d) auto

lemma map_of_Some_key: "map_of d key = Some rs \<Longrightarrow> key \<in> fst ` set d"
  by (auto dest: map_of_SomeD intro: rev_image_eqI)

lemma stored_filter_other:
  "k \<noteq> key \<Longrightarrow> stored (filter (\<lambda>(k, xs). k \<noteq> key) d) k = stored d k"
  by (simp add: stored_def map_of_filter_other)

text \<open>\<^verbatim>\<open>getReminders\<close> in one equation, whether the key is stored or not: reading a key
  that is not stored creates it, and the deletion removes it again.\<close>

lemma getReminders_eq:
  "getReminders today channel key tellee b =
     (map (format_reminder today tellee) (stored (reminders b) key),
      b\<lparr>reminders := filter (\<lambda>(k, xs). k \<noteq> key) (reminders b)\<rparr>)"
  by (auto simp: getReminders_def dd_getitem_def delete_key_def dict_del_def stored_def
      split: option.splits dest: map_of_Some_key)

text \<open>
  C3. For a key stored in the index with the list \<open>rs\<close>, \<^verbatim>\<open>getReminders\<close> returns one
  formatted line for every reminder of \<open>rs\<close>, in the order of \<open>rs\<close>, and removes the key:
  afterwards the index has no entry for it, and every other key has the list it had.
\<close>

theorem getReminders_delivers_all:
  assumes "map_of (reminders b) key = Some rs"
  shows "getReminders today channel key tellee b =
           (map (format_reminder today tellee) rs,
            b\<lparr>reminders := filter (\<lambda>(k, xs). k \<noteq> key) (reminders b)\<rparr>)
         \<and> map_of (reminders (snd (getReminders today channel key tellee b))) key = None
         \<and> (\<forall>k. k \<noteq> key \<longrightarrow>
               map_of (reminders (snd (getReminders today channel key tellee b))) k
                 = map_of (reminders b) k)"
  using assms by (simp add: getReminders_eq stored_def map_of_filter_key map_of_filter_other)

theorem getReminders_delivers_all_witness:
  "map_of (reminders (sample_bot five_for_bob)) ''bob'' = Some (snd (hd five_for_bob))
   \<and> fst (getReminders ''04 Nov'' ''#chan'' ''bob'' ''Bob'' (sample_bot five_for_bob))
       = [''Bob: 12:01 <alice> tell Bob one'', ''Bob: 12:02 <alice> ask Bob two'',
          ''Bob: 03 Nov 12:03 <carol> tell Bob three'', ''Bob: 12:04 <alice> tell Bob four'',
          ''Bob: 12:05 <alice> tell Bob five'']
   \<and> reminders (snd (getReminders ''04 Nov'' ''#chan'' ''bob'' ''Bob'' (sample_bot five_for_bob))) = []"
proof -
  have h: "map_of (reminders (sample_bot five_for_bob)) ''bob'' = Some (snd (hd five_for_bob))"
    by (simp add: sample_bot_def five_for_bob_def)
  show ?thesis
    using h getReminders_delivers_all [OF h, of "''04 Nov''" "''#chan''" "''Bob''"]
    by (simp add: sample_bot_def five_for_bob_def format_reminder_def startswith_def)
qed

text \<open>The handler of the \<^verbatim>\<open>KeyError\<close> on its own: were the key missing at the \<^verbatim>\<open>del\<close>, the
  filler would be said to the channel. Within \<^verbatim>\<open>getReminders\<close> the read before the \<^verbatim>\<open>del\<close>
  has created the key (\<open>getReminders_eq\<close>), so this branch is not taken there.\<close>

lemma delete_key_missing:
  assumes "key \<notin> fst ` set (reminders b)"
  shows "delete_key channel key b = b\<lparr>sent := sent b @ [Say channel filler]\<rparr>"
  using assms by (simp add: delete_key_def dict_del_def say_def)

subsection \<open>The loop of \<^verbatim>\<open>message\<close>\<close>

text \<open>The loop over distinct keys: the lines of the matching keys, in the order of the keys,
  and the index without the matching keys.\<close>

lemma match_loop_eq:
  "distinct ks \<Longrightarrow>
   match_loop today channel tellee ks acc b =
     (acc @ concat (map (\<lambda>k. if matches tellee k
                              then map (format_reminder today tellee) (stored (reminders b) k)
                              else []) ks),
      b\<lparr>reminders := filter (\<lambda>(k, xs). \<not> (k \<in> set ks \<and> matches tellee k)) (reminders b)\<rparr>)"
proof (induction ks arbitrary: acc b)
  case Nil
  then show ?case by simp
next
  case (Cons k ks)
  let ?fmt = "\<lambda>d k'. if matches tellee k'
                  then map (format_reminder today tellee) (stored d k') else []"
  let ?d' = "filter (\<lambda>(k', xs). k' \<noteq> k) (reminders b)"
  from Cons.prems have dist: "distinct ks" and fresh: "k \<notin> set ks"
    by simp_all
  show ?case
  proof (cases "matches tellee k")
    case True
    have rest: "map (?fmt ?d') ks = map (?fmt (reminders b)) ks"
    proof (rule map_cong [OF refl])
      fix k' assume "k' \<in> set ks"
      with fresh have "k' \<noteq> k" by auto
      then show "?fmt ?d' k' = ?fmt (reminders b) k'"
        by (simp add: stored_filter_other)
    qed
    have flt: "filter (\<lambda>(k', xs). \<not> (k' \<in> set ks \<and> matches tellee k')) ?d'
             = filter (\<lambda>(k', xs). \<not> (k' \<in> set (k # ks) \<and> matches tellee k')) (reminders b)"
      using True by (auto intro!: filter_cong)
    have step: "match_loop today channel tellee (k # ks) acc b
        = match_loop today channel tellee ks
            (acc @ map (format_reminder today tellee) (stored (reminders b) k))
            (b\<lparr>reminders := ?d'\<rparr>)"
      using True by (simp add: getReminders_eq)
    have ih: "match_loop today channel tellee ks
            (acc @ map (format_reminder today tellee) (stored (reminders b) k))
            (b\<lparr>reminders := ?d'\<rparr>)
        = ((acc @ map (format_reminder today tellee) (stored (reminders b) k))
             @ concat (map (?fmt ?d') ks),
           b\<lparr>reminders := filter (\<lambda>(k', xs). \<not> (k' \<in> set ks \<and> matches tellee k')) ?d'\<rparr>)"
      using Cons.IH [OF dist, of "acc @ map (format_reminder today tellee) (stored (reminders b) k)"
          "b\<lparr>reminders := ?d'\<rparr>"]
      by (simp cong: if_cong)
    have lines: "(acc @ map (format_reminder today tellee) (stored (reminders b) k))
             @ concat (map (?fmt ?d') ks)
           = acc @ concat (map (?fmt (reminders b)) (k # ks))"
      using True by (simp add: rest)
    show ?thesis
      by (simp only: step ih lines flt)
  next
    case False
    have flt': "filter (\<lambda>(k', xs). \<not> (k' \<in> set ks \<and> matches tellee k')) (reminders b)
              = filter (\<lambda>(k', xs). \<not> (k' \<in> set (k # ks) \<and> matches tellee k')) (reminders b)"
      using False by (auto intro!: filter_cong)
    have step: "match_loop today channel tellee (k # ks) acc b
        = match_loop today channel tellee ks acc b"
      using False by simp
    have lines: "acc @ concat (map (?fmt (reminders b)) ks)
           = acc @ concat (map (?fmt (reminders b)) (k # ks))"
      using False by simp
    show ?thesis
      by (simp only: step Cons.IH [OF dist] lines flt')
  qed
qed

lemma message_eq:
  assumes "tell_file b \<noteq> None" and "distinct (map fst (reminders b))"
  shows "message today trig b =
     save (deliver (sender trig) (nick trig)
        (concat (map (\<lambda>k. if matches (nick trig) k
                              then map (format_reminder today (nick trig)) (stored (reminders b) k)
                              else []) (rev (sort (map fst (reminders b))))))
        (b\<lparr>reminders := filter (\<lambda>(k, xs). \<not> matches (nick trig) k) (reminders b)\<rparr>))"
proof -
  have d: "distinct (rev (sort (map fst (reminders b))))"
    using assms(2) by simp
  have f: "filter (\<lambda>(k, xs). k \<in> fst ` set (reminders b) \<longrightarrow> \<not> matches (nick trig) k) (reminders b)
         = filter (\<lambda>(k, xs). \<not> matches (nick trig) k) (reminders b)"
    by (rule filter_cong) (auto intro: rev_image_eqI)
  from assms(1) obtain content where "tell_file b = Some content"
    by auto
  then show ?thesis
    by (simp add: message_def Let_def match_loop_eq [OF d] f)
qed


lemma match_loop_frame:
  "writes (snd (match_loop today channel tellee ks acc b)) = writes b
   \<and> tell_file (snd (match_loop today channel tellee ks acc b)) = tell_file b
   \<and> sent (snd (match_loop today channel tellee ks acc b)) = sent b"
  by (induction ks arbitrary: acc b) (simp_all add: getReminders_eq)

lemma deliver_frame:
  "writes (deliver channel tellee lines b) = writes b
   \<and> tell_file (deliver channel tellee lines b) = tell_file b
   \<and> reminders (deliver channel tellee lines b) = reminders b"
  by (simp add: deliver_def fold_say say_def Let_def)

lemma message_unfold:
  assumes "tell_file b \<noteq> None"
  shows "message today trig b =
     save (deliver (sender trig) (nick trig)
        (fst (match_loop today (sender trig) (nick trig) (rev (sort (map fst (reminders b)))) [] b))
        (snd (match_loop today (sender trig) (nick trig) (rev (sort (map fst (reminders b)))) [] b)))"
proof -
  from assms obtain content where "tell_file b = Some content"
    by auto
  then show ?thesis
    by (simp add: message_def Let_def split: prod.splits)
qed

lemma deliver_sent:
  "sent (deliver channel tellee lines b) =
     sent b @ map (Say channel) (take 4 lines)
       @ (if 4 < length lines
          then Say channel ''Further messages sent privately'' # map (Say tellee) (drop 4 lines)
          else [])"
  by (simp add: deliver_def MAXIMUM_def fold_say say_def Let_def)





text \<open>
  C6. The source compares the number of keys with the list \<^verbatim>\<open>remkeys\<close>, not with its
  length, so the test holds on every run: whenever the file exists, \<^verbatim>\<open>message\<close> opens it
  for writing once and leaves in it the dump of the index, whether a key was removed or not.
\<close>

theorem message_always_saves:
  assumes "tell_file b \<noteq> None"
  shows "writes (message today trig b) = Suc (writes b)
       \<and> tell_file (message today trig b) = Some (dump_reminders (reminders (message today trig b)))"
  by (simp add: message_unfold [OF assms] save_def deliver_frame match_loop_frame)

text \<open>The bot has loaded a file with a malformed line; \<^verbatim>\<open>alice\<close> speaks and no key matches.
  The index is what it was, and the file has been rewritten without the malformed line.\<close>

theorem message_always_saves_witness:
  "tell_file junk_bot \<noteq> None
   \<and> reminders (message ''04 Nov'' (speaks ''alice'') junk_bot) = reminders junk_bot
   \<and> writes junk_bot = 0
   \<and> writes (message ''04 Nov'' (speaks ''alice'') junk_bot) = 1
   \<and> sent (message ''04 Nov'' (speaks ''alice'') junk_bot) = []
   \<and> tell_file (message ''04 Nov'' (speaks ''alice'') junk_bot) \<noteq> tell_file junk_bot"
proof -
  have h: "tell_file junk_bot \<noteq> None"
    by (simp add: junk_bot_def)
  have r: "reminders (message ''04 Nov'' (speaks ''alice'') junk_bot) = reminders junk_bot"
    by code_simp
  have s: "sent (message ''04 Nov'' (speaks ''alice'') junk_bot) = []"
    by code_simp
  have f: "Some (dump_reminders (reminders junk_bot)) \<noteq> tell_file junk_bot"
    by code_simp
  show ?thesis
    using h r s f message_always_saves [OF h, of "''04 Nov''" "speaks ''alice''"]
    by (simp add: junk_bot_def)
qed

text \<open>
  C5. With \<open>lines\<close> the lines that the loop has collected for the speaker (none when the
  file is absent and the loop does not run), \<^verbatim>\<open>message\<close> says the first
  \<open>min (length lines) 4\<close> of them to the channel of the trigger; when there are more than 4
  it then says the notice to the channel and the lines from the fifth on to the speaker, in
  order. Nothing else is said. \<^verbatim>\<open>MAXIMUM\<close> is 4.
\<close>

theorem message_delivery:
  assumes "lines = (if tell_file b = None then []
                    else fst (match_loop today (sender trig) (nick trig)
                                (rev (sort (map fst (reminders b)))) [] b))"
  shows "sent (message today trig b) =
           sent b @ map (Say (sender trig)) (take (min (length lines) 4) lines)
             @ (if 4 < length lines
                then Say (sender trig) ''Further messages sent privately''
                       # map (Say (nick trig)) (drop 4 lines)
                else [])
         \<and> MAXIMUM = 4"
proof (cases "tell_file b = None")
  case True
  with assms show ?thesis
    by (simp add: message_def MAXIMUM_def)
next
  case False
  have "take (min (length lines) 4) lines = take 4 lines"
    by (simp add: min_def)
  with assms False show ?thesis
    by (simp add: message_unfold [OF False] save_def deliver_sent match_loop_frame MAXIMUM_def)
qed

theorem message_delivery_witness:
  "tell_file (sample_bot five_for_bob) \<noteq> None
   \<and> sent (message ''04 Nov'' (speaks ''Bob'') (sample_bot five_for_bob))
       = [Say ''#chan'' ''Bob: 12:01 <alice> tell Bob one'',
          Say ''#chan'' ''Bob: 12:02 <alice> ask Bob two'',
          Say ''#chan'' ''Bob: 03 Nov 12:03 <carol> tell Bob three'',
          Say ''#chan'' ''Bob: 12:04 <alice> tell Bob four'',
          Say ''#chan'' ''Further messages sent privately'',
          Say ''Bob'' ''Bob: 12:05 <alice> tell Bob five'']"
proof -
  have h1: "tell_file (sample_bot five_for_bob) \<noteq> None"
    by (simp add: sample_bot_def)
  have h2: "[''Bob: 12:01 <alice> tell Bob one'', ''Bob: 12:02 <alice> ask Bob two'',
             ''Bob: 03 Nov 12:03 <carol> tell Bob three'', ''Bob: 12:04 <alice> tell Bob four'',
             ''Bob: 12:05 <alice> tell Bob five'']
            = (if tell_file (sample_bot five_for_bob) = None then []
               else fst (match_loop ''04 Nov'' (sender (speaks ''Bob'')) (nick (speaks ''Bob''))
                      (rev (sort (map fst (reminders (sample_bot five_for_bob))))) []
                      (sample_bot five_for_bob)))"
    by code_simp
  show ?thesis
    using h1 message_delivery [OF h2] by (simp add: sample_bot_def speaks_def)
qed

subsection \<open>The enqueue handler\<close>

lemma ident_eq_sym: "ident_eq a b \<longleftrightarrow> ident_eq b a"
  by (auto simp: ident_eq_def)

lemma f_remind_valid:
  assumes "group3 trig = Some g3" and "g3 \<noteq> []"
    and "lstrip_ws (lstrip (rstrip ''.,:;'' g3) (group2 trig)) \<noteq> []"
    and "tell_file b \<noteq> None"
    and "length (rstrip ''.,:;'' g3) \<le> 30"
    and "\<not> ident_eq (rstrip ''.,:;'' g3) (bot_nick b)"
  shows "f_remind timenow trig b =
     (let tellee = rstrip ''.,:;'' g3;
          r = (nick trig, group1 trig, timenow, lstrip_ws (lstrip tellee (group2 trig)))
      in if \<not> (ident_eq tellee (nick trig) \<or> ident_eq tellee ''me'')
         then reply (''I'll pass that on when '' @ tellee @ '' is around.'')
                (save (b\<lparr>reminders := (case find_key tellee (reminders b) of
                                 None \<Rightarrow> reminders b @ [(tellee, [r])]
                               | Some k \<Rightarrow> append_under k r (reminders b))\<rparr>))
         else if ident_eq tellee (nick trig)
           then say (sender trig) (''You can '' @ group1 trig @ '' yourself that.'') b
         else say (sender trig) ''Hey, I'm not as stupid as Monty you know!'' b)"
proof -
  from assms(4) obtain content where "tell_file b = Some content"
    by auto
  with assms(1,2,3,5,6) show ?thesis
    by (simp add: f_remind_def Let_def ident_eq_sym [of "nick trig"])
qed

text \<open>
  C8, as the code has it. For a request with recipient and message, a recipient of at most
  30 characters that is not the bot, and the file present: when the recipient is the
  requester's nickname up to case, the handler says \<^verbatim>\<open>You can <verb> yourself that.\<close>;
  when it is \<^verbatim>\<open>me\<close> up to case and not the requester's nickname, the handler says
  \<^verbatim>\<open>Hey, I'm not as stupid as Monty you know!\<close>. In both cases the index and the file
  are left as they were.
\<close>

theorem f_remind_self_or_me:
  assumes "group3 trig = Some g3" and "g3 \<noteq> []"
    and "tellee = rstrip ''.,:;'' g3"
    and "lstrip_ws (lstrip tellee (group2 trig)) \<noteq> []"
    and "tell_file b \<noteq> None"
    and "length tellee \<le> 30"
    and "\<not> ident_eq tellee (bot_nick b)"
    and "ident_eq tellee (nick trig) \<or> ident_eq tellee ''me''"
  shows "f_remind timenow trig b =
           b\<lparr>sent := sent b @ [Say (sender trig)
              (if ident_eq tellee (nick trig) then ''You can '' @ group1 trig @ '' yourself that.''
               else ''Hey, I'm not as stupid as Monty you know!'')]\<rparr>
         \<and> reminders (f_remind timenow trig b) = reminders b
         \<and> tell_file (f_remind timenow trig b) = tell_file b
         \<and> writes (f_remind timenow trig b) = writes b"
  using assms(3-8) f_remind_valid [OF assms(1,2), of b timenow]
  by (auto simp: Let_def say_def)

theorem f_remind_self_or_me_witness:
  "sent (f_remind ''12:00'' (command ''alice'' ''tell'' ''Alice: remember milk'' ''Alice:'') (sample_bot five_for_bob))
     = [Say ''#chan'' ''You can tell yourself that.'']
   \<and> sent (f_remind ''12:00'' (command ''alice'' ''ask'' ''Me why'' ''Me'') (sample_bot five_for_bob))
     = [Say ''#chan'' ''Hey, I'm not as stupid as Monty you know!'']
   \<and> reminders (f_remind ''12:00'' (command ''alice'' ''ask'' ''Me why'' ''Me'') (sample_bot five_for_bob)) = five_for_bob"
  using f_remind_self_or_me [of "command ''alice'' ''tell'' ''Alice: remember milk'' ''Alice:''" "''Alice:''" "''Alice''" "sample_bot five_for_bob" "''12:00''"]
   f_remind_self_or_me [of "command ''alice'' ''ask'' ''Me why'' ''Me''" "''Me''" "''Me''" "sample_bot five_for_bob" "''12:00''"]
  by (simp add: command_def sample_bot_def rstrip_def lstrip_def lstrip_ws_def isspace_def ident_eq_def lower_def lower_chr_def)

text \<open>
  C8 as the spec words it fails for the recipient \<^verbatim>\<open>me\<close>: \<^verbatim>\<open>alice\<close> asks the bot to
  tell \<^verbatim>\<open>me\<close> something, and the answer is the other sentence. And a request of
  \<^verbatim>\<open>alice\<close> to tell \<^verbatim>\<open>Alice\<close> gets no answer when the file is absent, and the question
  for the message when there is none.
\<close>

theorem tell_me_counterexample:
  "ident_eq ''me'' ''me'' \<and> \<not> ident_eq ''me'' (bot_nick (sample_bot []))
   \<and> sent (f_remind ''12:00'' (command ''alice'' ''tell'' ''me hello'' ''me'') (sample_bot []))
       = [Say ''#chan'' ''Hey, I'm not as stupid as Monty you know!'']
   \<and> Say ''#chan'' ''You can tell yourself that.''
       \<notin> set (sent (f_remind ''12:00'' (command ''alice'' ''tell'' ''me hello'' ''me'') (sample_bot [])))
   \<and> ident_eq ''Alice'' ''alice''
   \<and> sent (f_remind ''12:00'' (command ''alice'' ''tell'' ''Alice hello'' ''Alice'')
              ((sample_bot [])\<lparr>tell_file := None\<rparr>)) = []
   \<and> sent (f_remind ''12:00'' (command ''alice'' ''tell'' ''Alice'' ''Alice'') (sample_bot []))
       = [Reply ''tell Alice what?'']"
  by code_simp

lemma map_upd_absent:
  "key \<notin> fst ` set d \<Longrightarrow> map (\<lambda>(k, xs). if k = key then (k, xs @ [r]) else (k, xs)) d = d"
  by (induction d) auto

lemma append_under_absent:
  "key \<notin> fst ` set d \<Longrightarrow> append_under key r d = d @ [(key, [r])]"
proof -
  assume a: "key \<notin> fst ` set d"
  then have "map_of d key = None"
    by (simp add: map_of_eq_None_iff)
  with a show ?thesis
    by (simp add: append_under_def dd_getitem_def map_upd_absent)
qed

lemma append_under_present:
  "key \<in> fst ` set d \<Longrightarrow>
   append_under key r d = map (\<lambda>(k, xs). if k = key then (k, xs @ [r]) else (k, xs)) d"
proof -
  assume "key \<in> fst ` set d"
  then obtain rs where "map_of d key = Some rs"
    by (metis map_of_eq_None_iff not_Some_eq)
  then show ?thesis
    by (simp add: append_under_def dd_getitem_def)
qed

lemma map_of_map_upd:
  "map_of (map (\<lambda>(k, xs). if k = key then (k, xs @ [r]) else (k, xs)) d) k' =
     (if k' = key then map_option (\<lambda>xs. xs @ [r]) (map_of d key) else map_of d k')"
  by (induction d) auto

lemma append_under_map_of:
  "map_of (append_under key r d) k' =
     (if k' = key then Some (stored d key @ [r]) else map_of d k')"
proof (cases "key \<in> fst ` set d")
  case True
  then obtain rs where "map_of d key = Some rs"
    by (metis map_of_eq_None_iff not_Some_eq)
  with True show ?thesis
    by (simp add: append_under_present map_of_map_upd stored_def)
next
  case False
  then have "map_of d key = None"
    by (simp add: map_of_eq_None_iff)
  with False show ?thesis
    by (auto simp: append_under_absent stored_def map_add_def split: option.splits)
qed

lemma append_under_keys:
  "map fst (append_under key r d) = (if key \<in> fst ` set d then map fst d else map fst d @ [key])"
  by (auto simp: append_under_present append_under_absent case_prod_beta intro!: map_idI)

lemma dump_lines_Cons:
  "dump_lines ((k, rs) # d) =
     map (\<lambda>(teller, verb, timenow, msg). join TAB [k, teller, verb, timenow, msg]) rs @ dump_lines d"
  by (simp add: dump_lines_def)

lemma dump_lines_append: "dump_lines (d @ e) = dump_lines d @ dump_lines e"
  by (simp add: dump_lines_def)

lemma dump_lines_upd:
  "distinct (map fst d) \<Longrightarrow> key \<in> fst ` set d \<Longrightarrow>
   length (dump_lines (map (\<lambda>(k, xs). if k = key then (k, xs @ [r]) else (k, xs)) d))
     = Suc (length (dump_lines d))"
proof (induction d)
  case Nil
  then show ?case by simp
next
  case (Cons e d)
  obtain k rs where e: "e = (k, rs)" by (cases e)
  show ?case
  proof (cases "k = key")
    case True
    with Cons.prems e have "key \<notin> fst ` set d" by auto
    with True e show ?thesis
      by (simp add: dump_lines_Cons map_upd_absent)
  next
    case False
    with Cons e show ?thesis
      by (auto simp: dump_lines_Cons)
  qed
qed

lemma append_under_count:
  "distinct (map fst d) \<Longrightarrow> length (dump_lines (append_under key r d)) = Suc (length (dump_lines d))"
proof (cases "key \<in> fst ` set d")
  case True
  assume "distinct (map fst d)"
  with True show ?thesis
    by (simp add: append_under_present dump_lines_upd)
next
  case False
  have "dump_lines [(key, [r])] = [join TAB [key, fst r, fst (snd r), fst (snd (snd r)), snd (snd (snd r))]]"
    by (simp add: dump_lines_def case_prod_beta)
  with False show ?thesis
    by (simp add: append_under_absent dump_lines_append)
qed

lemma dump_lines_member:
  "map_of d k = Some rs \<Longrightarrow> (teller, verb, timenow, msg) \<in> set rs \<Longrightarrow>
   join TAB [k, teller, verb, timenow, msg] \<in> set (dump_lines d)"
  by (force simp: dump_lines_def dest: map_of_SomeD)

lemma find_key_None: "find_key ident d = None \<Longrightarrow> ident \<notin> fst ` set d"
  by (auto simp: find_key_def find_None_iff ident_eq_def)

lemma find_key_Some: "find_key ident d = Some k \<Longrightarrow> k \<in> fst ` set d \<and> ident_eq k ident"
  by (auto simp: find_key_def find_Some_iff)

text \<open>
  C4, as the code has it. For a request with recipient and message, a recipient of at most
  30 characters that is not the bot, not the requester and not \<^verbatim>\<open>me\<close> (each up to case),
  with the file present and an index with distinct keys, as a dictionary has: the handler
  appends the new reminder at the end of the list of the recipient's key (the stored key equal
  to the recipient up to case, or the recipient itself as a new key), every other key keeps
  its list, the index holds exactly one reminder more, the file is written once with the dump
  of the new index, and that dump has the line of the new reminder.
\<close>

theorem f_remind_appends:
  assumes "group3 trig = Some g3" and "g3 \<noteq> []"
    and "tellee = rstrip ''.,:;'' g3"
    and "msg = lstrip_ws (lstrip tellee (group2 trig))" and "msg \<noteq> []"
    and "length tellee \<le> 30"
    and "\<not> ident_eq tellee (bot_nick b)"
    and "\<not> ident_eq tellee (nick trig)"
    and "\<not> ident_eq tellee ''me''"
    and "tell_file b \<noteq> None"
    and "distinct (map fst (reminders b))"
    and "key = (case find_key tellee (reminders b) of None \<Rightarrow> tellee | Some k \<Rightarrow> k)"
    and "b' = f_remind timenow trig b"
  shows "ident_eq key tellee
       \<and> map_of (reminders b') key
           = Some (stored (reminders b) key @ [(nick trig, group1 trig, timenow, msg)])
       \<and> (\<forall>k. k \<noteq> key \<longrightarrow> map_of (reminders b') k = map_of (reminders b) k)
       \<and> length (dump_lines (reminders b')) = Suc (length (dump_lines (reminders b)))
       \<and> distinct (map fst (reminders b'))
       \<and> writes b' = Suc (writes b)
       \<and> tell_file b' = Some (dump_reminders (reminders b'))
       \<and> join TAB [key, nick trig, group1 trig, timenow, msg] \<in> set (dump_lines (reminders b'))
       \<and> sent b' = sent b @ [Reply (''I'll pass that on when '' @ tellee @ '' is around.'')]"
proof -
  let ?r = "(nick trig, group1 trig, timenow, msg)"
  have d: "(case find_key tellee (reminders b) of
              None \<Rightarrow> reminders b @ [(tellee, [?r])]
            | Some k \<Rightarrow> append_under k ?r (reminders b))
           = append_under key ?r (reminders b)"
    using assms(12) by (auto simp: append_under_absent dest: find_key_None split: option.splits)
  have t: "rstrip ''.,:;'' g3 = tellee"
    using assms(3) by simp
  have m: "lstrip_ws (lstrip tellee (group2 trig)) = msg"
    using assms(4) by simp
  note v = f_remind_valid [OF assms(1,2), of b timenow, unfolded t m Let_def,
      OF assms(5) assms(10) assms(6) assms(7)]
  have "f_remind timenow trig b = reply (''I'll pass that on when '' @ tellee @ '' is around.'')
                   (save (b\<lparr>reminders := append_under key ?r (reminders b)\<rparr>))"
    using assms(8,9) by (simp add: v d)
  then have b': "b' = reply (''I'll pass that on when '' @ tellee @ '' is around.'')
                   (save (b\<lparr>reminders := append_under key ?r (reminders b)\<rparr>))"
    by (simp only: assms(13))
  then have rem: "reminders b' = append_under key ?r (reminders b)"
    and fl: "tell_file b' = Some (dump_reminders (reminders b'))"
    and wr: "writes b' = Suc (writes b)"
    and snt: "sent b' = sent b @ [Reply (''I'll pass that on when '' @ tellee @ '' is around.'')]"
    by (simp_all add: reply_def save_def)
  have key: "ident_eq key tellee"
    using assms(12) by (auto simp: ident_eq_def dest: find_key_Some split: option.splits)
  have here: "map_of (reminders b') key = Some (stored (reminders b) key @ [?r])"
    by (simp add: rem append_under_map_of)
  have others: "\<forall>k. k \<noteq> key \<longrightarrow> map_of (reminders b') k = map_of (reminders b) k"
    by (simp add: rem append_under_map_of)
  have count: "length (dump_lines (reminders b')) = Suc (length (dump_lines (reminders b)))"
    using assms(11) by (simp add: rem append_under_count)
  have dist: "distinct (map fst (reminders b'))"
    using assms(11) by (simp add: rem append_under_keys)
  have line: "join TAB [key, nick trig, group1 trig, timenow, msg] \<in> set (dump_lines (reminders b'))"
    by (rule dump_lines_member [OF here]) simp
  from key here others count dist wr fl line snt show ?thesis
    by blast
qed

theorem f_remind_appends_witness:
  "reminders (f_remind ''04 Nov 12:06'' (command ''dave'' ''tell'' ''Bob six'' ''Bob'') (sample_bot five_for_bob))
     = [(''bob'', snd (hd five_for_bob) @ [(''dave'', ''tell'', ''04 Nov 12:06'', ''six'')])]
   \<and> join TAB [''bob'', ''dave'', ''tell'', ''04 Nov 12:06'', ''six'']
       \<in> set (dump_lines (reminders (f_remind ''04 Nov 12:06'' (command ''dave'' ''tell'' ''Bob six'' ''Bob'') (sample_bot five_for_bob))))
   \<and> map_of (reminders (f_remind ''12:00'' (command ''alice'' ''ask'' ''carol why'' ''carol'') (sample_bot five_for_bob))) ''carol''
       = Some [(''alice'', ''ask'', ''12:00'', ''why'')]
   \<and> map_of (reminders (f_remind ''12:00'' (command ''alice'' ''ask'' ''carol why'' ''carol'') (sample_bot five_for_bob))) ''bob''
       = Some (snd (hd five_for_bob))
   \<and> length (dump_lines (reminders (f_remind ''12:00'' (command ''alice'' ''ask'' ''carol why'' ''carol'') (sample_bot five_for_bob)))) = 6"
proof -
  let ?t1 = "command ''dave'' ''tell'' ''Bob six'' ''Bob''"
  let ?t2 = "command ''alice'' ''ask'' ''carol why'' ''carol''"
  let ?b = "sample_bot five_for_bob"
  have k1: "''bob'' = (case find_key ''Bob'' (reminders ?b) of None \<Rightarrow> ''Bob'' | Some k \<Rightarrow> k)"
    by code_simp
  have k2: "''carol'' = (case find_key ''carol'' (reminders ?b) of None \<Rightarrow> ''carol'' | Some k \<Rightarrow> k)"
    by code_simp
  have r1: "reminders (f_remind ''04 Nov 12:06'' ?t1 ?b)
     = [(''bob'', snd (hd five_for_bob) @ [(''dave'', ''tell'', ''04 Nov 12:06'', ''six'')])]"
    by code_simp
  have s: "stored (reminders ?b) ''carol'' = []" "stored (reminders ?b) ''bob'' = snd (hd five_for_bob)"
    "length (dump_lines (reminders ?b)) = 5"
    by code_simp+
  have w1: "join TAB [''bob'', ''dave'', ''tell'', ''04 Nov 12:06'', ''six'']
       \<in> set (dump_lines (reminders (f_remind ''04 Nov 12:06'' ?t1 ?b)))"
    using f_remind_appends [of ?t1 "''Bob''" "''Bob''" "''six''" ?b "''bob''" _ "''04 Nov 12:06''", OF _ _ _ _ _ _ _ _ _ _ _ k1 refl]
    by (simp add: command_def sample_bot_def five_for_bob_def rstrip_def lstrip_def lstrip_ws_def
        isspace_def ident_eq_def lower_def lower_chr_def)
  have w2: "map_of (reminders (f_remind ''12:00'' ?t2 ?b)) ''carol'' = Some [(''alice'', ''ask'', ''12:00'', ''why'')]
     \<and> map_of (reminders (f_remind ''12:00'' ?t2 ?b)) ''bob'' = map_of (reminders ?b) ''bob''
     \<and> length (dump_lines (reminders (f_remind ''12:00'' ?t2 ?b))) = 6"
    using f_remind_appends [of ?t2 "''carol''" "''carol''" "''why''" ?b "''carol''" _ "''12:00''", OF _ _ _ _ _ _ _ _ _ _ _ k2 refl] s
    by (simp add: command_def sample_bot_def five_for_bob_def rstrip_def lstrip_def lstrip_ws_def
        isspace_def ident_eq_def lower_def lower_chr_def)
  from r1 w1 w2 show ?thesis
    by (simp add: sample_bot_def five_for_bob_def)
qed

text \<open>
  C4 as the spec words it fails when the file is absent: the request is valid, and the
  handler returns at once, leaving the index and the file as they were and saying nothing.
\<close>

theorem f_remind_without_file_counterexample:
  "rstrip ''.,:;'' ''bob'' = ''bob'' \<and> lstrip_ws (lstrip ''bob'' ''bob hello'') = ''hello''
   \<and> length ''bob'' \<le> 30
   \<and> \<not> ident_eq ''bob'' ''Sopel'' \<and> \<not> ident_eq ''bob'' ''alice'' \<and> \<not> ident_eq ''bob'' ''me''
   \<and> f_remind ''12:00'' (command ''alice'' ''tell'' ''bob hello'' ''bob'')
         ((sample_bot [])\<lparr>tell_file := None\<rparr>)
       = (sample_bot [])\<lparr>tell_file := None\<rparr>"
  by code_simp

subsection \<open>Keys with an empty prefix\<close>

lemma map_of_filter_None:
  "\<not> P key \<Longrightarrow> map_of (filter (\<lambda>(k, xs). P k) d) key = None"
  by (induction d) auto

lemma deliver_says_every_line:
  assumes "l \<in> set lines"
  shows "Say channel l \<in> set (sent (deliver channel tellee lines b))
       \<or> Say tellee l \<in> set (sent (deliver channel tellee lines b))"
proof -
  have "set lines = set (take 4 lines) \<union> set (drop 4 lines)"
    by (metis append_take_drop_id set_append)
  with assms consider "l \<in> set (take 4 lines)" | "l \<in> set (drop 4 lines)"
    by auto
  then show ?thesis
  proof cases
    case 1
    then show ?thesis by (simp add: deliver_sent)
  next
    case 2
    then have "4 < length lines"
      by (cases "4 < length lines") auto
    with 2 show ?thesis by (simp add: deliver_sent)
  qed
qed

lemma matches_empty_prefix:
  assumes "endswith key ''*''" and "rstrip ''*:'' key = []"
  shows "matches tellee key"
proof -
  from assms(1) have "\<not> endswith key '':''"
    by (auto simp: endswith_last)
  moreover have "rstrip ''*:'' (lower key) = []"
    using lower_rstrip [of key] assms(2) by (simp add: lower_def)
  ultimately show ?thesis
    using assms(1) by (simp add: matches_def startswith_def)
qed

text \<open>
  C10, as the code has it. A key that ends in \<^verbatim>\<open>*\<close> and is empty once its trailing \<^verbatim>\<open>*\<close> and \<^verbatim>\<open>:\<close>
  characters are stripped, such as \<^verbatim>\<open>*\<close>, matches every nickname. So when the file is
  present (and the keys of the index are distinct, as a dictionary has them), the next chat
  line of any speaker removes the key from the index and every reminder stored under it is
  said, to the channel or to the speaker.
\<close>

theorem empty_prefix_key_delivers_to_anyone:
  assumes "endswith key ''*''" and "rstrip ''*:'' key = []"
    and "tell_file b \<noteq> None"
    and "distinct (map fst (reminders b))"
    and "map_of (reminders b) key = Some rs"
  shows "matches tellee key
       \<and> map_of (reminders (message today trig b)) key = None
       \<and> (\<forall>r \<in> set rs.
            Say (sender trig) (format_reminder today (nick trig) r) \<in> set (sent (message today trig b))
            \<or> Say (nick trig) (format_reminder today (nick trig) r) \<in> set (sent (message today trig b)))"
proof -
  let ?lines = "concat (map (\<lambda>k. if matches (nick trig) k
                              then map (format_reminder today (nick trig)) (stored (reminders b) k)
                              else []) (rev (sort (map fst (reminders b)))))"
  let ?b1 = "b\<lparr>reminders := filter (\<lambda>(k, xs). \<not> matches (nick trig) k) (reminders b)\<rparr>"
  have m: "matches who key" for who
    by (rule matches_empty_prefix [OF assms(1,2)])
  have msg: "message today trig b = save (deliver (sender trig) (nick trig) ?lines ?b1)"
    by (rule message_eq [OF assms(3,4)])
  have gone: "map_of (reminders (message today trig b)) key = None"
    using m [of "nick trig"]
    by (simp add: msg save_def deliver_frame map_of_filter_None [of "\<lambda>k. \<not> matches (nick trig) k"])
  have "key \<in> set (rev (sort (map fst (reminders b))))"
    using map_of_Some_key [OF assms(5)] by simp
  moreover have "stored (reminders b) key = rs"
    using assms(5) by (simp add: stored_def)
  ultimately have "format_reminder today (nick trig) r \<in> set ?lines" if "r \<in> set rs" for r
    using that m [of "nick trig"] by (auto intro!: bexI [of _ key])
  then have "Say (sender trig) (format_reminder today (nick trig) r)
                 \<in> set (sent (message today trig b))
             \<or> Say (nick trig) (format_reminder today (nick trig) r)
                 \<in> set (sent (message today trig b))" if "r \<in> set rs" for r
    using that deliver_says_every_line [of "format_reminder today (nick trig) r" ?lines "sender trig" "nick trig" ?b1]
    by (simp add: msg save_def)
  with m [of tellee] gone show ?thesis
    by blast
qed

theorem empty_prefix_key_delivers_to_anyone_witness:
  "endswith ''*'' ''*'' \<and> rstrip ''*:'' ''*'' = [] \<and> matches ''whoever'' ''*''
   \<and> reminders (message ''04 Nov'' (speaks ''zed'') (sample_bot ((''*'', [(''alice'', ''tell'', ''04 Nov 12:00'', ''hi all'')]) # five_for_bob)))
       = five_for_bob
   \<and> sent (message ''04 Nov'' (speaks ''zed'') (sample_bot ((''*'', [(''alice'', ''tell'', ''04 Nov 12:00'', ''hi all'')]) # five_for_bob)))
       = [Say ''#chan'' ''zed: 12:00 <alice> tell zed hi all'']"
proof -
  let ?d = "(''*'', [(''alice'', ''tell'', ''04 Nov 12:00'', ''hi all'')]) # five_for_bob"
  have h1: "endswith ''*'' ''*''" and h2: "rstrip ''*:'' ''*'' = []"
    by (simp_all add: endswith_def rstrip_def)
  have h3: "tell_file (sample_bot ?d) \<noteq> None" and h4: "distinct (map fst (reminders (sample_bot ?d)))"
    and h5: "map_of (reminders (sample_bot ?d)) ''*'' = Some [(''alice'', ''tell'', ''04 Nov 12:00'', ''hi all'')]"
    by (simp_all add: sample_bot_def five_for_bob_def)
  have r: "reminders (message ''04 Nov'' (speaks ''zed'') (sample_bot ?d)) = five_for_bob"
    by code_simp
  have s: "sent (message ''04 Nov'' (speaks ''zed'') (sample_bot ?d))
       = [Say ''#chan'' ''zed: 12:00 <alice> tell zed hi all'']"
    by code_simp
  show ?thesis
    using h1 h2 r s empty_prefix_key_delivers_to_anyone [OF h1 h2 h3 h4 h5, of "''whoever''" "''04 Nov''" "speaks ''zed''"]
    by simp
qed

text \<open>
  C10 as the spec words it fails for the key \<^verbatim>\<open>*:\<close>: nothing is left of it once its
  trailing \<^verbatim>\<open>*\<close> and \<^verbatim>\<open>:\<close> are stripped, but it ends in \<^verbatim>\<open>:\<close> and takes the exact branch,
  so \<^verbatim>\<open>alice\<close> does not match it and her chat line delivers nothing. And with the file
  absent, the key \<^verbatim>\<open>*\<close> stays in the index as well.
\<close>

theorem empty_prefix_key_counterexample:
  "rstrip ''*:'' ''*:'' = [] \<and> \<not> matches ''alice'' ''*:''
   \<and> message ''04 Nov'' (speaks ''alice'') (sample_bot [(''*:'', [(''bob'', ''tell'', ''12:00'', ''hi'')])])
       = (sample_bot [(''*:'', [(''bob'', ''tell'', ''12:00'', ''hi'')])])\<lparr>writes := 1\<rparr>
   \<and> endswith ''*'' ''*'' \<and> rstrip ''*:'' ''*'' = []
   \<and> message ''04 Nov'' (speaks ''alice'')
         ((sample_bot [(''*'', [(''bob'', ''tell'', ''12:00'', ''hi'')])])\<lparr>tell_file := None\<rparr>)
       = (sample_bot [(''*'', [(''bob'', ''tell'', ''12:00'', ''hi'')])])\<lparr>tell_file := None\<rparr>"
  by code_simp

subsection \<open>Loading the store\<close>

lemma count_sep_split:
  "sep \<in> set s \<Longrightarrow>
   length (filter (\<lambda>c. c = sep) s)
     = Suc (length (filter (\<lambda>c. c = sep) (tl (dropWhile (\<lambda>c. c \<noteq> sep) s))))"
  by (induction s) auto

lemma length_split_max:
  "length (split_max sep n s) = Suc (min n (length (filter (\<lambda>c. c = sep) s)))"
proof (induction n arbitrary: s)
  case 0
  then show ?case by simp
next
  case (Suc n)
  show ?case
  proof (cases "sep \<in> set s")
    case True
    then show ?thesis
      by (simp add: Suc.IH count_sep_split [OF True])
  next
    case False
    then have "filter (\<lambda>c. c = sep) s = []"
      by (auto simp: filter_empty_conv)
    with False show ?thesis by simp
  qed
qed

lemma five_fields: "length xs = 5 \<longleftrightarrow> (\<exists>a b c d e. xs = [a, b, c, d, e])"
  by (auto simp: eval_nat_numeral length_Suc_conv)

lemma parse_line_Some:
  "strip line \<noteq> [] \<Longrightarrow> split_max TAB 4 (strip line) = [a, b, c, d, e] \<Longrightarrow>
   parse_line line = Some (a, (b, c, d, e))"
  by (simp add: parse_line_def)

lemma parse_line_None:
  "strip line = [] \<or> length (split_max TAB 4 (strip line)) \<noteq> 5 \<Longrightarrow> parse_line line = None"
  by (auto simp: parse_line_def Let_def five_fields split: list.splits)

lemma parse_line_iff:
  "parse_line line = None \<longleftrightarrow> strip line = [] \<or> length (split_max TAB 4 (strip line)) \<noteq> 5"
proof
  assume p: "parse_line line = None"
  show "strip line = [] \<or> length (split_max TAB 4 (strip line)) \<noteq> 5"
  proof (rule ccontr)
    assume "\<not> (strip line = [] \<or> length (split_max TAB 4 (strip line)) \<noteq> 5)"
    then have a: "strip line \<noteq> []" and "length (split_max TAB 4 (strip line)) = 5"
      by simp_all
    then obtain a b c d e where "split_max TAB 4 (strip line) = [a, b, c, d, e]"
      by (auto simp: five_fields)
    with a have "parse_line line = Some (a, (b, c, d, e))"
      by (rule parse_line_Some)
    with p show False by simp
  qed
next
  assume "strip line = [] \<or> length (split_max TAB 4 (strip line)) \<noteq> 5"
  then show "parse_line line = None"
    by (rule parse_line_None)
qed

lemma load_lines_map_of:
  "map_of (load_lines d ls) key =
     (if map_of d key = None \<and> reminders_for key (List.map_filter parse_line ls) = [] then None
      else Some (stored d key @ reminders_for key (List.map_filter parse_line ls)))"
proof (induction ls arbitrary: d)
  case Nil
  then show ?case
    by (simp add: reminders_for_def stored_def split: option.splits)
next
  case (Cons l ls)
  show ?case
  proof (cases "parse_line l")
    case None
    then show ?thesis
      by (simp add: Cons.IH)
  next
    case (Some e)
    obtain k r where e: "e = (k, r)" by (cases e)
    show ?thesis
      using Some e
      by (simp add: Cons.IH append_under_map_of reminders_for_def stored_def)
  qed
qed


text \<open>
  C7, as the code has it. \<^verbatim>\<open>load_reminders\<close> strips whitespace from both ends of a line
  first. It skips the line exactly when the stripped line is empty or does not split, at
  its first four tabs, into 5 fields, that is, when it has fewer than 4 tabs; otherwise the
  5 fields are the entry. The index holds exactly the entries of the lines not skipped: under
  every key the reminders of the lines with that key, in file order, and no key without a
  line. The function is total, so a skipped line is no failure.
\<close>

theorem load_keeps_parsed_lines:
  "(parse_line line = None \<longleftrightarrow>
      strip line = [] \<or> length (split_max TAB 4 (strip line)) \<noteq> 5)
   \<and> (length (split_max TAB 4 (strip line)) = 5 \<longleftrightarrow>
        4 \<le> length (filter (\<lambda>c. c = TAB) (strip line)))
   \<and> (strip line \<noteq> [] \<and> split_max TAB 4 (strip line) = [tellee, teller, verb, timenow, msg] \<longrightarrow>
        parse_line line = Some (tellee, (teller, verb, timenow, msg)))
   \<and> map_of (load_reminders content) key =
        (if reminders_for key (parsed content) = [] then None
         else Some (reminders_for key (parsed content)))"
proof (intro conjI impI)
  show "parse_line line = None \<longleftrightarrow>
      strip line = [] \<or> length (split_max TAB 4 (strip line)) \<noteq> 5"
    by (rule parse_line_iff)
  show "length (split_max TAB 4 (strip line)) = 5 \<longleftrightarrow>
        4 \<le> length (filter (\<lambda>c. c = TAB) (strip line))"
    by (auto simp: length_split_max)
  show "map_of (load_reminders content) key =
        (if reminders_for key (parsed content) = [] then None
         else Some (reminders_for key (parsed content)))"
    by (simp add: load_reminders_def parsed_def load_lines_map_of stored_def)
next
  assume "strip line \<noteq> [] \<and> split_max TAB 4 (strip line) = [tellee, teller, verb, timenow, msg]"
  then show "parse_line line = Some (tellee, (teller, verb, timenow, msg))"
    by (simp add: parse_line_Some)
qed

theorem load_keeps_parsed_lines_witness:
  "parse_line (''bob'' @ [TAB] @ ''alice'' @ [TAB] @ ''tell'' @ [TAB] @ ''12:00'' @ [TAB] @ ''hi'' @ [TAB] @ ''there '' @ [LF])
     = Some (''bob'', ''alice'', ''tell'', ''12:00'', ''hi'' @ [TAB] @ ''there'')
   \<and> parse_line (''junk'' @ [TAB] @ ''line'' @ [LF]) = None
   \<and> parse_line short_line = None
   \<and> map_of (load_reminders junk_file) ''bob'' = Some [(''alice'', ''tell'', ''04 Nov 12:01'', ''one'')]
   \<and> map_of (load_reminders junk_file) ''junk'' = None"
proof -
  let ?l1 = "''bob'' @ [TAB] @ ''alice'' @ [TAB] @ ''tell'' @ [TAB] @ ''12:00'' @ [TAB] @ ''hi'' @ [TAB] @ ''there '' @ [LF]"
  let ?l2 = "''junk'' @ [TAB] @ ''line'' @ [LF]"
  have s1: "strip ?l1 \<noteq> []"
    "split_max TAB 4 (strip ?l1) = [''bob'', ''alice'', ''tell'', ''12:00'', ''hi'' @ [TAB] @ ''there'']"
    by code_simp+
  have s2: "length (split_max TAB 4 (strip ?l2)) \<noteq> 5"
    by code_simp
  have s3: "length (split_max TAB 4 (strip short_line)) \<noteq> 5"
    by code_simp
  have p: "reminders_for ''bob'' (parsed junk_file) = [(''alice'', ''tell'', ''04 Nov 12:01'', ''one'')]"
    "reminders_for ''junk'' (parsed junk_file) = []"
    by code_simp+
  have w1: "parse_line ?l1 = Some (''bob'', ''alice'', ''tell'', ''12:00'', ''hi'' @ [TAB] @ ''there'')"
    using s1 load_keeps_parsed_lines [of ?l1 "''bob''" "''alice''" "''tell''" "''12:00''" "''hi'' @ [TAB] @ ''there''"]
    by blast
  have w2: "parse_line ?l2 = None"
    using s2 load_keeps_parsed_lines [of ?l2, THEN conjunct1] by simp
  have w3: "parse_line short_line = None"
    using s3 load_keeps_parsed_lines [of short_line, THEN conjunct1] by simp
  have w4: "map_of (load_reminders junk_file) ''bob'' = Some [(''alice'', ''tell'', ''04 Nov 12:01'', ''one'')]"
    using p(1) load_keeps_parsed_lines [of _ _ _ _ _ _ junk_file "''bob''"] by simp
  have w5: "map_of (load_reminders junk_file) ''junk'' = None"
    using p(2) load_keeps_parsed_lines [of _ _ _ _ _ _ junk_file "''junk''"] by simp
  from w1 w2 w3 w4 w5 show ?thesis
    by simp
qed

text \<open>
  C7 as the spec words it fails for a line whose last field is empty: the line is not
  empty and splits on tab into exactly 5 fields, and \<^verbatim>\<open>load_reminders\<close> skips it, since
  \<^verbatim>\<open>strip\<close> has removed the last tab before the split.
\<close>

theorem trailing_tab_line_counterexample:
  "short_line \<noteq> []
   \<and> split_max TAB 4 short_line = [''bob'', ''alice'', ''tell'', ''12:00'', [] ]
   \<and> length (filter (\<lambda>c. c = TAB) short_line) = 4
   \<and> parse_line (short_line @ [LF]) = None
   \<and> load_reminders (short_line @ [LF]) = []"
  by code_simp

subsection \<open>Saving and loading again\<close>

lemma LF_space: "isspace LF"
  by (simp add: isspace_def LF_def)

lemma CR_not_LF: "CR \<noteq> LF"
  by (simp add: CR_def LF_def)

lemma universal_newlines_id: "CR \<notin> set s \<Longrightarrow> universal_newlines False s = s"
  by (induction s) auto

lemma universal_newlines_no_CR: "CR \<notin> set (universal_newlines after_cr s)"
  by (induction s arbitrary: after_cr) (auto simp: CR_not_LF)

lemma readlines_line:
  "LF \<notin> set l \<Longrightarrow> readlines cur (l @ LF # rest) = (cur @ l @ [LF]) # readlines [] rest"
  by (induction l arbitrary: cur) auto

lemma readlines_dump:
  "\<forall>l \<in> set ls. LF \<notin> set l \<Longrightarrow>
   readlines [] (concat (map (\<lambda>l. l @ [LF]) ls)) = map (\<lambda>l. l @ [LF]) ls"
  by (induction ls) (simp_all add: readlines_line)

lemma readlines_shape:
  "LF \<notin> set cur \<Longrightarrow> l \<in> set (readlines cur s) \<Longrightarrow>
   \<exists>body. (l = body \<or> l = body @ [LF]) \<and> LF \<notin> set body \<and> set body \<subseteq> set cur \<union> set s"
proof (induction s arbitrary: cur)
  case Nil
  then show ?case by (auto split: if_splits)
next
  case (Cons c s)
  show ?case
  proof (cases "c = LF")
    case True
    with Cons.prems(2) consider "l = cur @ [LF]" | "l \<in> set (readlines [] s)"
      by auto
    then show ?thesis
    proof cases
      case 1
      with Cons.prems(1) show ?thesis by auto
    next
      case 2
      from Cons.IH [OF _ 2] obtain body where
        "(l = body \<or> l = body @ [LF]) \<and> LF \<notin> set body \<and> set body \<subseteq> set [] \<union> set s"
        by auto
      then show ?thesis by auto
    qed
  next
    case False
    with Cons.prems have "LF \<notin> set (cur @ [c])" and "l \<in> set (readlines (cur @ [c]) s)"
      by auto
    from Cons.IH [OF this] obtain body where
      "(l = body \<or> l = body @ [LF]) \<and> LF \<notin> set body \<and> set body \<subseteq> set (cur @ [c]) \<union> set s"
      by auto
    then show ?thesis by auto
  qed
qed

lemma strip_snoc_space: "isspace c \<Longrightarrow> strip (s @ [c]) = strip s"
proof (cases "\<forall>x \<in> set s. isspace x")
  case True
  assume "isspace c"
  with True show ?thesis
    by (auto simp: strip_def dest: set_dropWhileD)
next
  case False
  then obtain x where "x \<in> set s" and "\<not> isspace x"
    by auto
  then have "dropWhile isspace (s @ [c]) = dropWhile isspace s @ [c]"
    by (rule dropWhile_append1)
  moreover assume "isspace c"
  ultimately show ?thesis
    by (simp add: strip_def)
qed

lemma strip_subset: "set (strip s) \<subseteq> set s"
proof -
  have "set (strip s) = set (dropWhile isspace (rev (dropWhile isspace s)))"
    by (simp add: strip_def)
  also have "\<dots> \<subseteq> set (rev (dropWhile isspace s))"
    by (rule set_dropWhileD [THEN subsetI])
  also have "\<dots> \<subseteq> set s"
    by (auto dest: set_dropWhileD)
  finally show ?thesis .
qed

lemma strip_ends:
  assumes "strip s \<noteq> []"
  shows "\<not> isspace (hd (strip s)) \<and> \<not> isspace (last (strip s))"
proof -
  let ?t = "dropWhile isspace s"
  let ?u = "dropWhile isspace (rev ?t)"
  from assms have u: "?u \<noteq> []"
    by (simp add: strip_def)
  have t: "?t \<noteq> []"
  proof
    assume e: "?t = []"
    have "?u = []" by (simp only: e rev.simps dropWhile.simps)
    with u show False by simp
  qed
  have "\<not> isspace (hd ?u)"
    using u by (rule hd_dropWhile)
  then have l: "\<not> isspace (last (strip s))"
    using u by (simp add: strip_def last_rev)
  have ht: "\<not> isspace (hd ?t)"
    using t by (rule hd_dropWhile)
  then have "\<not> isspace (last (rev ?t))"
    using t by (simp add: last_rev)
  have "last ?u = last (rev ?t)"
    using u by (metis last_appendR takeWhile_dropWhile_id)
  then have "hd (strip s) = hd ?t"
    using u t by (simp add: strip_def hd_rev last_rev)
  with ht l show ?thesis by simp
qed

lemma strip_id:
  assumes "s \<noteq> []" and "\<not> isspace (hd s)" and "\<not> isspace (last s)"
  shows "strip s = s"
proof -
  from assms(1,2) have "dropWhile isspace s = s"
    by (cases s) auto
  moreover from assms(1,3) have "dropWhile isspace (rev s) = rev s"
    by (cases "rev s") (auto simp: last_rev [symmetric])
  ultimately show ?thesis
    by (simp add: strip_def)
qed

lemma split_max_step:
  "sep \<notin> set x \<Longrightarrow> split_max sep (Suc n) (x @ sep # rest) = x # split_max sep n rest"
proof -
  assume a: "sep \<notin> set x"
  then have "takeWhile (\<lambda>c. c \<noteq> sep) (x @ sep # rest) = x"
    by (induction x) auto
  moreover from a have "dropWhile (\<lambda>c. c \<noteq> sep) (x @ sep # rest) = sep # rest"
    by (induction x) auto
  ultimately show ?thesis by simp
qed

lemma split_max_fields:
  assumes "TAB \<notin> set a" and "TAB \<notin> set b" and "TAB \<notin> set c" and "TAB \<notin> set d"
  shows "split_max TAB 4 (join TAB [a, b, c, d, e]) = [a, b, c, d, e]"
proof -
  have "split_max TAB (Suc (Suc (Suc (Suc 0)))) (a @ TAB # b @ TAB # c @ TAB # d @ TAB # e)
        = [a, b, c, d, e]"
    by (simp add: split_max_step assms del: split_max.simps(2))
  then show ?thesis
    by (simp add: eval_nat_numeral)
qed

lemma split_max_not_Nil: "split_max sep n s \<noteq> []"
  by (cases n) auto

lemma split_max_Cons2:
  assumes "split_max sep (Suc n) s = x # y # ys"
  shows "sep \<notin> set x \<and> split_max sep n (tl (dropWhile (\<lambda>c. c \<noteq> sep) s)) = y # ys
       \<and> s = x @ sep # tl (dropWhile (\<lambda>c. c \<noteq> sep) s)"
proof -
  from assms have in_s: "sep \<in> set s"
    by (auto split: if_splits)
  with assms have x: "x = takeWhile (\<lambda>c. c \<noteq> sep) s"
    and r: "split_max sep n (tl (dropWhile (\<lambda>c. c \<noteq> sep) s)) = y # ys"
    by simp_all
  have "sep \<notin> set x"
    unfolding x by (auto dest: set_takeWhileD)
  moreover from in_s have "dropWhile (\<lambda>c. c \<noteq> sep) s \<noteq> []"
    by simp
  then have "hd (dropWhile (\<lambda>c. c \<noteq> sep) s) = sep"
    using hd_dropWhile [of "\<lambda>c. c \<noteq> sep" s] by simp
  with \<open>dropWhile (\<lambda>c. c \<noteq> sep) s \<noteq> []\<close>
  have "dropWhile (\<lambda>c. c \<noteq> sep) s = sep # tl (dropWhile (\<lambda>c. c \<noteq> sep) s)"
    by (cases "dropWhile (\<lambda>c. c \<noteq> sep) s") auto
  then have "s = x @ sep # tl (dropWhile (\<lambda>c. c \<noteq> sep) s)"
    unfolding x by (metis takeWhile_dropWhile_id)
  ultimately show ?thesis
    using r by simp
qed

lemma split_max_five:
  assumes "split_max TAB 4 s = [a, b, c, d, e]"
  shows "TAB \<notin> set a \<and> TAB \<notin> set b \<and> TAB \<notin> set c \<and> TAB \<notin> set d
       \<and> s = join TAB [a, b, c, d, e]"
proof -
  from assms have 4: "split_max TAB (Suc 3) s = a # b # [c, d, e]"
    by simp
  from split_max_Cons2 [OF 4] obtain s3 where a: "TAB \<notin> set a" and s: "s = a @ TAB # s3"
    and "split_max TAB 3 s3 = [b, c, d, e]"
    by blast
  then have 3: "split_max TAB (Suc 2) s3 = b # c # [d, e]"
    by (simp add: eval_nat_numeral)
  from split_max_Cons2 [OF 3] obtain s2 where b: "TAB \<notin> set b" and s3: "s3 = b @ TAB # s2"
    and "split_max TAB 2 s2 = [c, d, e]"
    by blast
  then have 2: "split_max TAB (Suc 1) s2 = c # d # [e]"
    by (simp add: eval_nat_numeral)
  from split_max_Cons2 [OF 2] obtain s1 where c: "TAB \<notin> set c" and s2: "s2 = c @ TAB # s1"
    and "split_max TAB 1 s1 = [d, e]"
    by blast
  then have 1: "split_max TAB (Suc 0) s1 = d # e # []"
    by simp
  from split_max_Cons2 [OF 1] have d: "TAB \<notin> set d"
    and s1: "s1 = d @ TAB # tl (dropWhile (\<lambda>c. c \<noteq> TAB) s1)"
    and "split_max TAB 0 (tl (dropWhile (\<lambda>c. c \<noteq> TAB) s1)) = [e]"
    by blast+
  then have "s1 = d @ TAB # e"
    by simp
  with a b c d s s3 s2 show ?thesis
    by simp
qed

lemma parse_clean_entry:
  assumes "clean_entry (k, (a, b, c, m))"
  shows "parse_line (join TAB [k, a, b, c, m] @ [LF]) = Some (k, (a, b, c, m))"
proof -
  let ?line = "join TAB [k, a, b, c, m]"
  from assms have tabs: "TAB \<notin> set k" "TAB \<notin> set a" "TAB \<notin> set b" "TAB \<notin> set c"
    and ends: "?line \<noteq> []" "\<not> isspace (hd ?line)" "\<not> isspace (last ?line)"
    by (simp_all add: clean_entry_def Let_def)
  have "strip (?line @ [LF]) = strip ?line"
    by (rule strip_snoc_space [OF LF_space])
  also have "\<dots> = ?line"
    using ends by (rule strip_id)
  finally have "strip (?line @ [LF]) = ?line" .
  moreover have "split_max TAB 4 ?line = [k, a, b, c, m]"
    using tabs by (rule split_max_fields)
  ultimately show ?thesis
    using ends(1) by (simp add: parse_line_def del: join.simps)
qed

lemma parse_line_clean:
  assumes "parse_line l = Some e"
    and "l = body \<or> l = body @ [LF]" and "LF \<notin> set body" and "CR \<notin> set body"
  shows "clean_entry e"
proof -
  obtain k a b c m where e: "e = (k, (a, b, c, m))"
    by (cases e) auto
  from assms(2) have s: "strip l = strip body"
    by (auto simp: strip_snoc_space [OF LF_space])
  from assms(1) have ne: "strip l \<noteq> []"
    using parse_line_iff [of l] by auto
  from assms(1) ne have "length (split_max TAB 4 (strip l)) = 5"
    using parse_line_iff [of l] by auto
  then obtain k' a' b' c' m' where sp: "split_max TAB 4 (strip l) = [k', a', b', c', m']"
    by (auto simp: five_fields)
  with ne have "parse_line l = Some (k', (a', b', c', m'))"
    by (rule parse_line_Some)
  with assms(1) e sp have sp': "split_max TAB 4 (strip l) = [k, a, b, c, m]"
    by simp
  from split_max_five [OF sp'] have tabs: "TAB \<notin> set k" "TAB \<notin> set a" "TAB \<notin> set b" "TAB \<notin> set c"
    and line: "strip l = join TAB [k, a, b, c, m]"
    by blast+
  have "set (strip l) \<subseteq> set body"
    unfolding s by (rule strip_subset)
  with assms(3,4) have "LF \<notin> set (strip l)" "CR \<notin> set (strip l)"
    by auto
  moreover from strip_ends [OF ne] have "\<not> isspace (hd (strip l))" "\<not> isspace (last (strip l))"
    by simp_all
  ultimately show ?thesis
    using tabs ne unfolding e line
    by (simp add: clean_entry_def Let_def del: join.simps)
qed

lemma well_formed_append_under:
  assumes "well_formed d" and "clean_entry (k, r)"
  shows "well_formed (append_under k r d)"
proof (cases "k \<in> fst ` set d")
  case True
  with assms show ?thesis
    unfolding well_formed_def append_under_keys
    by (auto simp: append_under_present list_all_iff split: if_splits) blast+
next
  case False
  with assms show ?thesis
    unfolding well_formed_def append_under_keys
    by (auto simp: append_under_absent list_all_iff)
qed

lemma line_shape_body:
  assumes "line_shape l"
  shows "\<exists>body. (l = body \<or> l = body @ [LF]) \<and> LF \<notin> set body \<and> CR \<notin> set body"
proof (cases "l \<noteq> [] \<and> last l = LF")
  case True
  then have "l = butlast l @ [LF]"
    by (metis append_butlast_last_id)
  moreover from assms have "LF \<notin> set (butlast l)" and "CR \<notin> set (butlast l)"
    by (auto simp: line_shape_def dest: in_set_butlastD)
  ultimately show ?thesis by blast
next
  case False
  have "LF \<notin> set l"
  proof
    assume "LF \<in> set l"
    then have "l \<noteq> []" by auto
    then have "l = butlast l @ [last l]" by simp
    with \<open>LF \<in> set l\<close> have "LF \<in> set (butlast l) \<or> last l = LF"
      by (metis rotate1.simps(2) set_ConsD set_rotate1)
    with assms False \<open>l \<noteq> []\<close> show False
      by (auto simp: line_shape_def)
  qed
  with assms show ?thesis
    by (auto simp: line_shape_def)
qed

lemma well_formed_load_lines:
  "well_formed d \<Longrightarrow> \<forall>l \<in> set ls. line_shape l \<Longrightarrow> well_formed (load_lines d ls)"
proof (induction ls arbitrary: d)
  case Nil
  then show ?case by simp
next
  case (Cons l ls)
  show ?case
  proof (cases "parse_line l")
    case None
    with Cons show ?thesis by simp
  next
    case (Some e)
    obtain k r where e: "e = (k, r)" by (cases e)
    from Cons.prems(2) have "line_shape l"
      by simp
    then obtain body where "l = body \<or> l = body @ [LF]" "LF \<notin> set body" "CR \<notin> set body"
      by (auto dest: line_shape_body)
    with Some have "clean_entry e"
      by (rule parse_line_clean)
    with Cons.prems(1) e have "well_formed (append_under k r d)"
      by (simp add: well_formed_append_under)
    with Cons Some e show ?thesis by simp
  qed
qed

lemma file_lines_shape:
  assumes "l \<in> set (readlines [] (universal_newlines False content))"
  shows "line_shape l"
proof -
  from readlines_shape [OF _ assms] obtain body where
    b: "l = body \<or> l = body @ [LF]" "LF \<notin> set body"
      "set body \<subseteq> set [] \<union> set (universal_newlines False content)"
    by auto
  with universal_newlines_no_CR [of False content] have "CR \<notin> set body"
    by auto
  with b show ?thesis
    by (auto simp: line_shape_def CR_not_LF dest: in_set_butlastD)
qed

lemma well_formed_load: "well_formed (load_reminders content)"
  unfolding load_reminders_def
  by (rule well_formed_load_lines) (auto simp: well_formed_def intro: file_lines_shape)

lemma load_lines_append: "load_lines d (xs @ ys) = load_lines (load_lines d xs) ys"
  by (induction xs arbitrary: d) simp_all

lemma parse_entry_line: "clean_entry (k, r) \<Longrightarrow> parse_line (entry_line k r) = Some (k, r)"
  by (cases r) (simp add: entry_line_def parse_clean_entry del: join.simps)

lemma append_under_last:
  "k \<notin> fst ` set acc \<Longrightarrow> append_under k r (acc @ [(k, xs)]) = acc @ [(k, xs @ [r])]"
  by (simp add: append_under_present map_upd_absent)

lemma load_entry_lines_more:
  "k \<notin> fst ` set acc \<Longrightarrow> \<forall>r \<in> set rs. clean_entry (k, r) \<Longrightarrow>
   load_lines (acc @ [(k, xs)]) (map (entry_line k) rs) = acc @ [(k, xs @ rs)]"
  by (induction rs arbitrary: xs) (simp_all add: parse_entry_line append_under_last)

lemma load_entry_lines:
  assumes "k \<notin> fst ` set acc" and "rs \<noteq> []" and "\<forall>r \<in> set rs. clean_entry (k, r)"
  shows "load_lines acc (map (entry_line k) rs) = acc @ [(k, rs)]"
proof -
  from assms(2) obtain r rs' where rs: "rs = r # rs'"
    by (cases rs) auto
  with assms show ?thesis
    by (simp add: parse_entry_line append_under_absent load_entry_lines_more)
qed

lemma load_index_lines:
  "well_formed d \<Longrightarrow> fst ` set d \<inter> fst ` set acc = {} \<Longrightarrow>
   load_lines acc (concat (map (\<lambda>(k, rs). map (entry_line k) rs) d)) = acc @ d"
proof (induction d arbitrary: acc)
  case Nil
  then show ?case by simp
next
  case (Cons e d)
  obtain k rs where e: "e = (k, rs)" by (cases e)
  from Cons.prems e have k: "k \<notin> fst ` set acc" and rs: "rs \<noteq> []"
    and cl: "\<forall>r \<in> set rs. clean_entry (k, r)" and wf: "well_formed d"
    and fresh: "k \<notin> fst ` set d"
    by (auto simp: well_formed_def list_all_iff)
  from Cons.prems(2) e fresh have "fst ` set d \<inter> fst ` set (acc @ [(k, rs)]) = {}"
    by auto
  with wf have "load_lines (acc @ [(k, rs)]) (concat (map (\<lambda>(k, rs). map (entry_line k) rs) d))
        = (acc @ [(k, rs)]) @ d"
    by (rule Cons.IH)
  then show ?case
    by (simp add: e load_lines_append load_entry_lines [OF k rs cl])
qed

lemma dump_lines_entry_lines:
  "map (\<lambda>l. l @ [LF]) (dump_lines d) = concat (map (\<lambda>(k, rs). map (entry_line k) rs) d)"
  by (induction d) (auto simp: dump_lines_Cons dump_lines_def entry_line_def)

lemma dump_line_clean:
  assumes "well_formed d" and "l \<in> set (dump_lines d)"
  shows "LF \<notin> set l \<and> CR \<notin> set l"
proof -
  from assms(2) obtain k a b c m rs where "(k, rs) \<in> set d" "(a, b, c, m) \<in> set rs"
    and l: "l = join TAB [k, a, b, c, m]"
    by (auto simp: dump_lines_def)
  with assms(1) have "clean_entry (k, (a, b, c, m))"
    by (auto simp: well_formed_def list_all_iff)
  then show ?thesis
    unfolding l by (simp add: clean_entry_def Let_def del: join.simps)
qed

lemma load_dump:
  assumes "well_formed d"
  shows "load_reminders (dump_reminders d) = d"
proof -
  have "CR \<notin> set (dump_reminders d)"
    using dump_line_clean [OF assms] by (auto simp: dump_reminders_def CR_not_LF)
  then have "universal_newlines False (dump_reminders d) = dump_reminders d"
    by (rule universal_newlines_id)
  moreover have "readlines [] (dump_reminders d) = map (\<lambda>l. l @ [LF]) (dump_lines d)"
    unfolding dump_reminders_def
    using dump_line_clean [OF assms] by (intro readlines_dump) auto
  ultimately show ?thesis
    using load_index_lines [OF assms, of "[]"]
    by (simp add: load_reminders_def dump_lines_entry_lines)
qed

text \<open>
  C2. For every file, loading it, saving the index and loading the saved file gives the
  index loaded from the file: the same keys, distinct, in the same order, each with the same
  list of reminders in the same order.
\<close>

theorem load_dump_load:
  "load_reminders (dump_reminders (load_reminders content)) = load_reminders content
   \<and> distinct (map fst (load_reminders content))"
  using load_dump [OF well_formed_load [of content]] well_formed_load [of content]
  by (simp add: well_formed_def)

theorem load_dump_load_witness:
  "load_reminders junk_file = [(''bob'', [(''alice'', ''tell'', ''04 Nov 12:01'', ''one'')])]
   \<and> dump_reminders (load_reminders junk_file) \<noteq> junk_file
   \<and> load_reminders (dump_reminders (load_reminders junk_file))
       = [(''bob'', [(''alice'', ''tell'', ''04 Nov 12:01'', ''one'')])]"
proof -
  have l: "load_reminders junk_file = [(''bob'', [(''alice'', ''tell'', ''04 Nov 12:01'', ''one'')])]"
    by code_simp
  have d: "dump_reminders (load_reminders junk_file) \<noteq> junk_file"
    by code_simp
  from l d load_dump_load [of junk_file] show ?thesis
    by simp
qed

end
